theory Spec2Isabelle
  imports Main "HOL-Library.Word"
begin

unbundle bit_operations_syntax

section \<open>Circular buffer module (buffer.c)\<close>

text \<open>
  The buffer is the 1024-byte array \<open>samples\<close> with a write pointer \<open>pHead\<close> and a read
  pointer \<open>pTail\<close>.  Pointers are modelled as offsets from \<open>samples\<close>; the three constant
  pointers \<open>pPage0\<close>, \<open>pPage1\<close> and \<open>pEnd\<close> are the offsets 0, 512 and 1024.  The record
  is extensible, so the same functions run on the whole device state further down.
\<close>

record buffer =
  samples :: "8 word list"
  pHead :: nat
  pTail :: nat

definition pPage0 :: nat where
  "pPage0 = 0"

definition pPage1 :: nat where
  "pPage1 = 512"

definition pEnd :: nat where
  "pEnd = 1024"

text \<open>
  \<open>buffer_init\<close> stores the two callbacks in function pointers that are assigned nowhere
  else.  The model passes the registered callback to the function that calls it.
\<close>

definition buffer_reset :: "'a buffer_scheme \<Rightarrow> 'a buffer_scheme" where
  "buffer_reset s = s\<lparr>pHead := pPage0, pTail := pPage0\<rparr>"

definition buffer_init :: "'a buffer_scheme \<Rightarrow> 'a buffer_scheme" where
  "buffer_init s = s\<lparr>pHead := pPage0, pTail := pPage0\<rparr>"

text \<open>
  \<open>*(pHead++) = word\<close>, then the two comparisons; \<open>buffer_dequeue\<close> likewise with
  \<open>*(pTail++)\<close>.  The access is inside the array for every pointer below 1024, which all
  operations of the module maintain; the results below assume it where they depend on
  the bytes.
\<close>

definition buffer_queue ::
  "('a buffer_scheme \<Rightarrow> 'a buffer_scheme) \<Rightarrow> 8 word \<Rightarrow> 'a buffer_scheme \<Rightarrow> 'a buffer_scheme" where
  "buffer_queue callbackPageFull word s =
     (let s1 = s\<lparr>samples := (samples s)[pHead s := word], pHead := pHead s + 1\<rparr> in
      if pHead s1 = pPage1 then callbackPageFull s1
      else if pHead s1 = pEnd then callbackPageFull (s1\<lparr>pHead := pPage0\<rparr>)
      else s1)"

definition buffer_dequeue ::
  "('a buffer_scheme \<Rightarrow> 'a buffer_scheme) \<Rightarrow> 'a buffer_scheme \<Rightarrow> 8 word \<times> 'a buffer_scheme" where
  "buffer_dequeue callbackPageEmpty s =
     (let word = samples s ! pTail s;
          s1 = s\<lparr>pTail := pTail s + 1\<rparr> in
      (word,
       if pTail s1 = pPage1 then callbackPageEmpty s1
       else if pTail s1 = pEnd then callbackPageEmpty (s1\<lparr>pTail := pPage0\<rparr>)
       else s1))"

definition buffer_readPage :: "'a buffer_scheme \<Rightarrow> nat \<times> 'a buffer_scheme" where
  "buffer_readPage s =
     (if pTail s > pPage0 then (pPage1, s\<lparr>pTail := pPage0\<rparr>)
      else (pPage0, s\<lparr>pTail := pPage1\<rparr>))"

definition buffer_writePage :: "'a buffer_scheme \<Rightarrow> nat \<times> 'a buffer_scheme" where
  "buffer_writePage s =
     (if pHead s > pPage0 then (pPage1, s\<lparr>pHead := pPage0\<rparr>)
      else (pPage0, s\<lparr>pHead := pPage1\<rparr>))"

text \<open>Repeated byte-wise calls, as the interrupt routines make them.\<close>

fun queue_all ::
  "('a buffer_scheme \<Rightarrow> 'a buffer_scheme) \<Rightarrow> 8 word list \<Rightarrow> 'a buffer_scheme \<Rightarrow> 'a buffer_scheme" where
  "queue_all cb [] s = s"
| "queue_all cb (w # ws) s = queue_all cb ws (buffer_queue cb w s)"

fun dequeue_n ::
  "('a buffer_scheme \<Rightarrow> 'a buffer_scheme) \<Rightarrow> nat \<Rightarrow> 'a buffer_scheme \<Rightarrow> 8 word list \<times> 'a buffer_scheme" where
  "dequeue_n cb 0 s = ([], s)"
| "dequeue_n cb (Suc n) s =
     (let (w, s1) = buffer_dequeue cb s;
          (ws, s2) = dequeue_n cb n s1
      in (w # ws, s2))"

text \<open>
  A buffer whose only extension is a counter, with a callback that counts its own
  invocations: the instrument used to observe how often \<open>buffer_queue\<close> calls back.
\<close>

record probe = buffer +
  fired :: nat

definition count_call :: "probe \<Rightarrow> probe" where
  "count_call s = s\<lparr>fired := fired s + 1\<rparr>"

definition probe0 :: "nat \<Rightarrow> nat \<Rightarrow> probe" where
  "probe0 h t = \<lparr>samples = replicate 1024 0, pHead = h, pTail = t, fired = 0\<rparr>"

section \<open>WAVE file interface (wave.c)\<close>

text \<open>
  FatFs (lib/fatfs) is an external library.  Its five calls used by wave.c are taken as
  parameters: a record of functions over an arbitrary file-system state \<open>'f\<close>, which
  stands for the globals \<open>fs\<close> and \<open>file\<close> and the card behind them.  A result code is a
  number, 0 being \<open>FR_OK\<close>; the code tests it for zero only.  \<open>f_read\<close> returns the bytes
  it transferred (the model keeps at most the number requested), \<open>f_write\<close> the count it
  reports in \<open>bw\<close>.
\<close>

type_synonym FRESULT = nat

datatype fmode = FA_READ | FA_WRITE | FA_CREATE_ALWAYS

record 'f fatfs =
  f_open :: "'f \<Rightarrow> string \<Rightarrow> fmode list \<Rightarrow> FRESULT \<times> 'f"
  f_read :: "'f \<Rightarrow> nat \<Rightarrow> FRESULT \<times> 8 word list \<times> 'f"
  f_write :: "'f \<Rightarrow> 8 word list \<Rightarrow> FRESULT \<times> 16 word \<times> 'f"
  f_lseek :: "'f \<Rightarrow> nat \<Rightarrow> FRESULT \<times> 'f"
  f_close :: "'f \<Rightarrow> FRESULT \<times> 'f"

text \<open>The calls made to FatFs, in order: the observable storage traffic.\<close>

datatype io_event =
  IO_open "fmode list"
  | IO_read nat
  | IO_write "8 word list"
  | IO_lseek nat
  | IO_close

text \<open>
  \<open>WAVE_HEADER\<close> is a union of the field structure and 44 bytes.  The model keeps the
  bytes; the target is little-endian and packs the structure without padding, so a field
  is read and written at its byte offset, least significant byte first.
\<close>

record WAVE_HEADER_FIELDS =
  ChunkID :: "8 word list"
  ChunkSize :: "32 word"
  Format :: "8 word list"
  fmtID :: "8 word list"
  fmtSize :: "32 word"
  AudioFormat :: "16 word"
  NumChannels :: "16 word"
  SampleRate :: "32 word"
  ByteRate :: "32 word"
  BlockAlign :: "16 word"
  BitsPerSample :: "16 word"
  dataID :: "8 word list"
  dataSize :: "32 word"

definition bytes_le :: "nat \<Rightarrow> 'a::len word \<Rightarrow> 8 word list" where
  "bytes_le n w = map (\<lambda>i. ucast (drop_bit (8 * i) w)) [0..<n]"

definition word_le :: "8 word list \<Rightarrow> 'a::len word" where
  "word_le bs = foldr (\<lambda>b acc. ucast b OR push_bit 8 acc) bs 0"

definition header_bytes :: "WAVE_HEADER_FIELDS \<Rightarrow> 8 word list" where
  "header_bytes h =
     take 4 (ChunkID h) @ bytes_le 4 (ChunkSize h) @ take 4 (Format h)
     @ take 4 (fmtID h) @ bytes_le 4 (fmtSize h) @ bytes_le 2 (AudioFormat h)
     @ bytes_le 2 (NumChannels h) @ bytes_le 4 (SampleRate h) @ bytes_le 4 (ByteRate h)
     @ bytes_le 2 (BlockAlign h) @ bytes_le 2 (BitsPerSample h)
     @ take 4 (dataID h) @ bytes_le 4 (dataSize h)"

definition header_dataSize :: "8 word list \<Rightarrow> 32 word" where
  "header_dataSize bytes = word_le (take 4 (drop 40 bytes))"

text \<open>
  A block transfer into memory at an offset: the bytes replace what was there.  Every
  call site stays inside the destination (44 bytes into the header, 1024 bytes at page 0,
  512 bytes at either page); the model drops what would fall outside.
\<close>

definition store_bytes :: "nat \<Rightarrow> 8 word list \<Rightarrow> 8 word list \<Rightarrow> 8 word list" where
  "store_bytes off data mem =
     take off mem @ take (length mem - off) data @ drop (off + length data) mem"

section \<open>Device state\<close>

text \<open>
  The globals of buffer.c, main.c and wave.c, the two locals of \<open>main\<close> that live across
  loop iterations (\<open>state\<close>, \<open>pb_prev\<close>), and the ADC, LED and Timer1 registers the code
  writes.  Two fields are observations, not program variables: \<open>io_trace\<close> lists the FatFs
  calls made so far, \<open>pwm_trace\<close> the samples the Timer1 routine has written to \<open>OCR1B\<close>.
  Console output, the pin-direction and clock registers, and \<open>serial_init\<close> are left
  out.  Interrupt routines run between loop iterations, never inside one.
\<close>

record 'f dvr = buffer +
  countpage :: "16 word"
  pageCount :: "16 word"
  newPage :: "16 word"
  stop :: "8 word"
  overflow_counter :: "8 word"
  overflow_reset :: "8 word"
  state :: "8 word"
  pb_prev :: "8 word"
  ADCSRA :: "8 word"
  PORTD :: "8 word"
  OCR1A :: "16 word"
  OCR1B :: "16 word"
  TCCR1A :: "8 word"
  TCCR1B :: "8 word"
  TIMSK1 :: "8 word"
  TCNT1 :: "16 word"
  waveHeader :: "8 word list"
  sampleCount :: "32 word"
  finaliseHeader :: "8 word"
  fs :: 'f
  io_trace :: "io_event list"
  pwm_trace :: "8 word list"

definition DVR_STOPPED :: "8 word" where
  "DVR_STOPPED = 0"

definition DVR_RECORDING :: "8 word" where
  "DVR_RECORDING = 1"

definition DVR_PLAYING :: "8 word" where
  "DVR_PLAYING = 2"

text \<open>Bit numbers of the push buttons and LEDs, as the device header numbers them.\<close>

definition PINF4 :: nat where "PINF4 = 4"
definition PINF5 :: nat where "PINF5 = 5"
definition PINF6 :: nat where "PINF6 = 6"
definition PIND4 :: nat where "PIND4 = 4"
definition PIND5 :: nat where "PIND5 = 5"
definition PIND6 :: nat where "PIND6 = 6"

subsection \<open>adc.c\<close>

definition adc_start :: "'f dvr \<Rightarrow> 'f dvr" where
  "adc_start s = s\<lparr>ADCSRA := 0xAE\<rparr>"

definition adc_stop :: "'f dvr \<Rightarrow> 'f dvr" where
  "adc_stop s = s\<lparr>ADCSRA := 0x00\<rparr>"

subsection \<open>wave.c\<close>

definition set_char_array :: "string \<Rightarrow> 8 word list" where
  "set_char_array string = map of_char (take 4 string)"

definition initialise_header :: "32 word \<Rightarrow> 8 word \<Rightarrow> 8 word \<Rightarrow> WAVE_HEADER_FIELDS" where
  "initialise_header samplerate bps channels =
     \<lparr>ChunkID = set_char_array ''RIFF'',
      ChunkSize = 0,
      Format = set_char_array ''WAVE'',
      fmtID = set_char_array ''fmt '',
      fmtSize = 16,
      AudioFormat = 1,
      NumChannels = ucast channels,
      SampleRate = samplerate,
      ByteRate = samplerate * ucast channels * ucast (drop_bit 3 bps),
      BlockAlign = ucast channels * ucast (drop_bit 3 bps),
      BitsPerSample = ucast bps,
      dataID = set_char_array ''data'',
      dataSize = 0\<rparr>"

definition write_wave_header :: "'f fatfs \<Rightarrow> 'f dvr \<Rightarrow> 'f dvr" where
  "write_wave_header F s =
     (let hdr = header_bytes (initialise_header 15625 8 1);
          (result, bw, fs1) = f_write F (fs s) (take 44 hdr)
      in s\<lparr>waveHeader := hdr, fs := fs1, io_trace := io_trace s @ [IO_write (take 44 hdr)],
            finaliseHeader := 1\<rparr>)"

definition read_wave_header :: "'f fatfs \<Rightarrow> 'f dvr \<Rightarrow> 32 word \<times> 'f dvr" where
  "read_wave_header F s =
     (let (result, rd, fs1) = f_read F (fs s) 44;
          data = take 44 rd;
          br = (of_nat (length data) :: 16 word);
          s1 = s\<lparr>waveHeader := store_bytes 0 data (waveHeader s), fs := fs1,
                 io_trace := io_trace s @ [IO_read 44]\<rparr>
      in if result OR of_bool (br \<noteq> 44) \<noteq> 0 then (0, s1)
         else (header_dataSize (waveHeader s1), s1))"

definition finalise_wave_header :: "'f fatfs \<Rightarrow> 'f dvr \<Rightarrow> 'f dvr" where
  "finalise_wave_header F s =
     (let dataSize = sampleCount s;
          chunkSize = 36 + dataSize;
          (result1, fs1) = f_lseek F (fs s) 4;
          (result2, bw2, fs2) = f_write F fs1 (bytes_le 4 chunkSize);
          (result3, fs3) = f_lseek F fs2 40;
          (result4, bw4, fs4) = f_write F fs3 (bytes_le 4 dataSize)
      in s\<lparr>fs := fs4,
            io_trace := io_trace s @ [IO_lseek 4, IO_write (bytes_le 4 chunkSize),
                                      IO_lseek 40, IO_write (bytes_le 4 dataSize)]\<rparr>)"

definition wave_create :: "'f fatfs \<Rightarrow> 'f dvr \<Rightarrow> 'f dvr" where
  "wave_create F s =
     (let (result, fs1) = f_open F (fs s) ''EGB240.WAV'' [FA_CREATE_ALWAYS, FA_READ, FA_WRITE];
          s1 = s\<lparr>fs := fs1, io_trace := io_trace s @ [IO_open [FA_CREATE_ALWAYS, FA_READ, FA_WRITE]]\<rparr>;
          s2 = write_wave_header F s1
      in s2\<lparr>sampleCount := 0\<rparr>)"

definition wave_open :: "'f fatfs \<Rightarrow> 'f dvr \<Rightarrow> 32 word \<times> 'f dvr" where
  "wave_open F s =
     (let (result, fs1) = f_open F (fs s) ''EGB240.WAV'' [FA_READ];
          s1 = s\<lparr>fs := fs1, io_trace := io_trace s @ [IO_open [FA_READ]]\<rparr>
      in read_wave_header F s1)"

definition wave_close :: "'f fatfs \<Rightarrow> 'f dvr \<Rightarrow> 'f dvr" where
  "wave_close F s =
     (let s1 = (if finaliseHeader s \<noteq> 0
                then finalise_wave_header F (s\<lparr>finaliseHeader := 0\<rparr>) else s);
          (result, fs1) = f_close F (fs s1)
      in s1\<lparr>fs := fs1, io_trace := io_trace s1 @ [IO_close]\<rparr>)"

text \<open>
  \<open>pSamples\<close> is an offset into \<open>samples\<close>: both functions are only ever called with a
  page of the buffer.
\<close>

definition wave_write :: "'f fatfs \<Rightarrow> nat \<Rightarrow> 16 word \<Rightarrow> 'f dvr \<Rightarrow> 'f dvr" where
  "wave_write F pSamples count s =
     (let buf = take (unat count) (drop pSamples (samples s));
          (result, bw, fs1) = f_write F (fs s) buf
      in s\<lparr>fs := fs1, io_trace := io_trace s @ [IO_write buf],
            sampleCount := sampleCount s + ucast bw\<rparr>)"

definition wave_read :: "'f fatfs \<Rightarrow> nat \<Rightarrow> 16 word \<Rightarrow> 'f dvr \<Rightarrow> 'f dvr" where
  "wave_read F pSamples count s =
     (let (result, rd, fs1) = f_read F (fs s) (unat count);
          data = take (unat count) rd
      in s\<lparr>samples := store_bytes pSamples data (samples s), fs := fs1,
            io_trace := io_trace s @ [IO_read (unat count)]\<rparr>)"

subsection \<open>main.c\<close>

definition pageFull :: "'f dvr \<Rightarrow> 'f dvr" where
  "pageFull s =
     (let s1 = s\<lparr>pageCount := pageCount s - 1\<rparr> in
      if pageCount s1 = 0 then (adc_stop s1)\<lparr>stop := 1\<rparr>
      else s1\<lparr>newPage := 1\<rparr>)"

definition pageEmpty :: "'f dvr \<Rightarrow> 'f dvr" where
  "pageEmpty s =
     (let s1 = s\<lparr>pageCount := pageCount s - 1\<rparr> in
      if pageCount s1 = 0 then s1\<lparr>stop := 1\<rparr>
      else s1\<lparr>newPage := 1\<rparr>)"

definition dvr_record :: "'f fatfs \<Rightarrow> 'f dvr \<Rightarrow> 'f dvr" where
  "dvr_record F s =
     (let s1 = buffer_reset s;
          s2 = s1\<lparr>countpage := 0, pageCount := 305, newPage := 0\<rparr>;
          s3 = wave_create F s2;
          s4 = adc_start s3;
          s5 = s4\<lparr>PORTD := PORTD s4 AND 0b10001111\<rparr>
      in s5\<lparr>PORTD := PORTD s5 OR push_bit PIND5 1\<rparr>)"

definition PWM_init :: "'f dvr \<Rightarrow> 'f dvr" where
  "PWM_init s =
     s\<lparr>OCR1A := 511, OCR1B := 256, TIMSK1 := TIMSK1 s OR 0b00000001,
       TCCR1A := 0b00100011, TCCR1B := 0b00011001, TCNT1 := 0x00\<rparr>"

definition PWM_stop :: "'f dvr \<Rightarrow> 'f dvr" where
  "PWM_stop s = s\<lparr>TCCR1A := 0, TIMSK1 := 0, OCR1B := 0, TCNT1 := 0\<rparr>"

text \<open>The ADC conversion-complete routine (adc.c); \<open>ADCH\<close> is the sample delivered.\<close>

definition ADC_vect :: "8 word \<Rightarrow> 'f dvr \<Rightarrow> 'f dvr" where
  "ADC_vect ADCH s = (let result = ADCH in buffer_queue pageFull result s)"

definition TIMER1_OVF_vect :: "'f dvr \<Rightarrow> 'f dvr" where
  "TIMER1_OVF_vect s =
     (let s1 = s\<lparr>overflow_counter := overflow_counter s + 1\<rparr> in
      if overflow_counter s1 = overflow_reset s1 then
        (let (output, s2) = buffer_dequeue pageEmpty s1
         in s2\<lparr>OCR1B := ucast output, pwm_trace := pwm_trace s2 @ [output],
                overflow_counter := 0\<rparr>)
      else s1)"

definition playback :: "'f fatfs \<Rightarrow> 'f dvr \<Rightarrow> 'f dvr" where
  "playback F s =
     (let s1 = buffer_reset s;
          s2 = s1\<lparr>pageCount := countpage s1, overflow_reset := 2, overflow_counter := 0\<rparr>;
          s3 = s2\<lparr>PORTD := PORTD s2 OR 0b00010000\<rparr>;
          (samples_in_file, s4) = wave_open F s3;
          (page, s5) = buffer_writePage s4;
          s6 = wave_read F page 1024 s5
      in PWM_init (s6\<lparr>newPage := 0\<rparr>))"

text \<open>
  The loop that waits for the stop button after a recording: \<open>pb_rise\<close> is a local that
  the loop body does not assign, so the loop either is skipped or never ends.
\<close>

partial_function (option) release_loop :: "8 word \<Rightarrow> 's \<Rightarrow> 's option" where
  "release_loop pb_rise s =
     (if pb_rise AND push_bit PINF6 1 \<noteq> 0 then release_loop pb_rise s else Some s)"

text \<open>
  One iteration of the \<open>for(;;)\<close> loop of \<open>main\<close>; \<open>pb_debounced\<close> is the value the
  iteration reads from the debouncer.  \<open>None\<close>: the iteration does not end.
\<close>

definition main_loop :: "'f fatfs \<Rightarrow> 8 word \<Rightarrow> 'f dvr \<Rightarrow> 'f dvr option" where
  "main_loop F pb_debounced s0 =
     (let pb = pb_debounced;
          pb_rise = pb AND (pb XOR pb_prev s0);
          s = s0\<lparr>pb_prev := pb\<rparr>
      in
      if state s = DVR_STOPPED then
        (let s1 = (if pb_rise AND push_bit PINF4 1 \<noteq> 0
                   then (let a = (playback F s)\<lparr>state := DVR_PLAYING\<rparr>;
                             b = a\<lparr>PORTD := PORTD a AND 0b10001111\<rparr>
                         in b\<lparr>PORTD := PORTD b OR push_bit PIND4 1\<rparr>)
                   else s);
             s2 = (if pb_rise AND push_bit PINF5 1 \<noteq> 0
                   then (let a = (dvr_record F s1)\<lparr>state := DVR_RECORDING\<rparr>;
                             b = a\<lparr>PORTD := PORTD a AND 0b10001111\<rparr>
                         in b\<lparr>PORTD := PORTD b OR push_bit PIND5 1\<rparr>)
                   else s1)
         in Some s2)
      else if state s = DVR_RECORDING then
        (let s1 = (if pb_rise AND push_bit PINF6 1 \<noteq> 0
                   then (let a = s\<lparr>PORTD := PORTD s AND 0b10001111\<rparr>;
                             b = a\<lparr>PORTD := PORTD a OR push_bit PIND6 1\<rparr>
                         in b\<lparr>pageCount := 1\<rparr>)
                   else s)
         in
         if newPage s1 \<noteq> 0 then
           (let a = s1\<lparr>countpage := countpage s1 + 1\<rparr>;
                b = a\<lparr>newPage := 0\<rparr>;
                (page, c) = buffer_readPage b
            in Some (wave_write F page 512 c))
         else if stop s1 \<noteq> 0 then
           (let a = s1\<lparr>stop := 0\<rparr>;
                (page, b) = buffer_readPage a;
                c = wave_write F page 512 b;
                d = wave_close F c;
                e = adc_stop d
            in map_option (\<lambda>t. t\<lparr>state := DVR_STOPPED\<rparr>) (release_loop pb_rise e))
         else Some s1)
      else if state s = DVR_PLAYING then
        (if newPage s \<noteq> 0 then
           (let a = s\<lparr>newPage := 0\<rparr>;
                (page, b) = buffer_writePage a
            in Some (wave_read F page 512 b))
         else if stop s \<noteq> 0 \<or> pb_rise AND push_bit PINF6 1 \<noteq> 0 then
           (let a = s\<lparr>stop := 0\<rparr>;
                b = wave_close F a;
                c = PWM_stop b;
                d = c\<lparr>PORTD := PORTD c AND 0b10001111\<rparr>;
                e = d\<lparr>PORTD := PORTD d OR push_bit PIND6 1\<rparr>;
                f = e\<lparr>state := DVR_STOPPED\<rparr>
            in Some (f\<lparr>overflow_reset := 2\<rparr>))
         else Some s)
      else
        (let a = s\<lparr>state := DVR_STOPPED\<rparr>;
             b = a\<lparr>PORTD := PORTD a OR push_bit PIND6 1\<rparr>
         in Some (b\<lparr>PORTD := PORTD b AND 0b10001111\<rparr>)))"

text \<open>A run of Timer1 overflow interrupts.\<close>

fun timer1_ticks :: "nat \<Rightarrow> 'f dvr \<Rightarrow> 'f dvr" where
  "timer1_ticks 0 s = s"
| "timer1_ticks (Suc k) s = timer1_ticks k (TIMER1_OVF_vect s)"

text \<open>
  A schedule interleaves the three contexts: an ADC interrupt delivering a sample, a
  Timer1 overflow interrupt, and a loop iteration reading a debounced button value.
  \<open>None\<close>: some iteration did not end.
\<close>

datatype event = Sample "8 word" | Overflow | Tick "8 word"

fun run :: "'f fatfs \<Rightarrow> event list \<Rightarrow> 'f dvr \<Rightarrow> 'f dvr option" where
  "run F [] s = Some s"
| "run F (Sample w # es) s = run F es (ADC_vect w s)"
| "run F (Overflow # es) s = run F es (TIMER1_OVF_vect s)"
| "run F (Tick pb # es) s =
     (case main_loop F pb s of None \<Rightarrow> None | Some t \<Rightarrow> run F es t)"

fun samples_of :: "event list \<Rightarrow> 8 word list" where
  "samples_of [] = []"
| "samples_of (Sample w # es) = w # samples_of es"
| "samples_of (e # es) = samples_of es"


text \<open>The page write that a stop-edge iteration performs when a page is pending.\<close>

definition pending_write :: "'f dvr \<Rightarrow> io_event list" where
  "pending_write s =
     (if newPage s \<noteq> 0 then [IO_write (take 512 (drop (pTail s) (samples s)))] else [])"

subsection \<open>A storage stub and a power-on state\<close>

text \<open>
  An in-memory file that never fails, standing in for FatFs where a concrete run is
  evaluated: a byte list and a file position.
\<close>

record memfile =
  content :: "8 word list"
  fptr :: nat

definition memfs :: "memfile fatfs" where
  "memfs =
     \<lparr>f_open = (\<lambda>f path mode.
         (0, if FA_CREATE_ALWAYS \<in> set mode then \<lparr>content = [], fptr = 0\<rparr> else f\<lparr>fptr := 0\<rparr>)),
      f_read = (\<lambda>f n.
         (let d = take n (drop (fptr f) (content f)) in (0, d, f\<lparr>fptr := fptr f + length d\<rparr>))),
      f_write = (\<lambda>f bs.
         (0, of_nat (length bs),
          f\<lparr>content := take (fptr f) (content f) @ bs @ drop (fptr f + length bs) (content f),
            fptr := fptr f + length bs\<rparr>)),
      f_lseek = (\<lambda>f n. (0, f\<lparr>fptr := n\<rparr>)),
      f_close = (\<lambda>f. (0, f))\<rparr>"

text \<open>A WAVE file as the recorder leaves it: a header reporting \<open>n\<close> samples, then a payload.\<close>

definition wave_file :: "32 word \<Rightarrow> 8 word list \<Rightarrow> 8 word list" where
  "wave_file n payload =
     header_bytes ((initialise_header 15625 8 1)\<lparr>ChunkSize := 36 + n, dataSize := n\<rparr>) @ payload"

text \<open>
  The state in which \<open>main\<close> enters its loop, over a given file-system state: globals as
  their initialisers leave them, the buffer pointers as \<open>buffer_init\<close> sets them, LED 3
  lit, the other registers at their reset value.
\<close>

definition power_on :: "'f \<Rightarrow> 'f dvr" where
  "power_on f =
     \<lparr>samples = replicate 1024 0, pHead = pPage0, pTail = pPage0,
      countpage = 0, pageCount = 0, newPage = 0, stop = 0,
      overflow_counter = 0, overflow_reset = 2,
      state = DVR_STOPPED, pb_prev = 0x00,
      ADCSRA = 0, PORTD = push_bit PIND6 1, OCR1A = 0, OCR1B = 0, TCCR1A = 0, TCCR1B = 0, TIMSK1 = 0, TCNT1 = 0,
      waveHeader = replicate 44 0, sampleCount = 0, finaliseHeader = 0,
      fs = f, io_trace = [], pwm_trace = []\<rparr>"

section \<open>Sessions\<close>

text \<open>
  The file-system state after a list of FatFs calls, made in order on the one file the
  program uses: with it a result can say which state the card is left in, not only which
  calls were observed.
\<close>

fun replay :: "'f fatfs \<Rightarrow> io_event list \<Rightarrow> 'f \<Rightarrow> 'f" where
  "replay F [] f = f"
| "replay F (IO_open m # es) f = replay F es (snd (f_open F f ''EGB240.WAV'' m))"
| "replay F (IO_read n # es) f = replay F es (snd (snd (f_read F f n)))"
| "replay F (IO_write bs # es) f = replay F es (snd (snd (f_write F f bs)))"
| "replay F (IO_lseek n # es) f = replay F es (snd (f_lseek F f n))"
| "replay F (IO_close # es) f = replay F es (snd (f_close F f))"


definition finalise_trace :: "32 word \<Rightarrow> io_event list" where
  "finalise_trace n =
     [IO_lseek 4, IO_write (bytes_le 4 (36 + n)), IO_lseek 40, IO_write (bytes_le 4 n), IO_close]"







text \<open>
  An event of a recording with any button activity: a sample, or a loop iteration reading
  any value.
\<close>

definition rec_event :: "event \<Rightarrow> bool" where
  "rec_event e = (case e of Sample w \<Rightarrow> True | Overflow \<Rightarrow> False | Tick p \<Rightarrow> True)"

text \<open>
  The state in which the iteration that completes a recording reaches its
  \<open>while (pb_rise & S3)\<close> loop: the statements of the \<open>DVR_RECORDING\<close> case of \<open>main_loop\<close>
  on the \<open>stop\<close> branch, up to \<open>adc_stop\<close>.  What follows in the source is that loop and
  the assignment of \<open>DVR_STOPPED\<close>.
\<close>

definition completion :: "'f fatfs \<Rightarrow> 8 word \<Rightarrow> 'f dvr \<Rightarrow> 'f dvr" where
  "completion F pb_debounced s0 =
     (let pb = pb_debounced;
          pb_rise = pb AND (pb XOR pb_prev s0);
          s = s0\<lparr>pb_prev := pb\<rparr>;
          s1 = (if pb_rise AND push_bit PINF6 1 \<noteq> 0
                then (let a = s\<lparr>PORTD := PORTD s AND 0b10001111\<rparr>;
                          b = a\<lparr>PORTD := PORTD a OR push_bit PIND6 1\<rparr>
                      in b\<lparr>pageCount := 1\<rparr>)
                else s);
          a = s1\<lparr>stop := 0\<rparr>;
          (page, b) = buffer_readPage a;
          c = wave_write F page 512 b;
          d = wave_close F c
      in adc_stop d)"

section \<open>Invariants used in the proofs\<close>

text \<open>
  A recording round, described by the countdown \<open>c\<close> at its start, the page \<open>base\<close> being
  filled, what the page held when the description starts (\<open>pre\<close>), the samples taken since
  (\<open>ws\<close>) and the number \<open>j\<close> of loop iterations that have serviced the full page: what the
  flags, pointers and counters are, which FatFs calls have been made since the start of
  the round, and the file-system state they lead to.
\<close>

definition round_trace :: "32 word \<Rightarrow> nat \<Rightarrow> 8 word list \<Rightarrow> nat \<Rightarrow> io_event list" where
  "round_trace sc1 c page j =
     (if j = 1 then IO_write page # (if c = 1 then finalise_trace (sc1 + 512) else []) else [])"

definition round_inv ::
  "'f fatfs \<Rightarrow> io_event list \<Rightarrow> 'f \<Rightarrow> 32 word \<Rightarrow> nat \<Rightarrow> nat \<Rightarrow> 8 word list \<Rightarrow> 8 word list \<Rightarrow> nat
     \<Rightarrow> 'f dvr \<Rightarrow> bool" where
  "round_inv F tr1 f1 sc1 c base pre ws j t \<longleftrightarrow>
     (base = 0 \<or> base = 512) \<and> length pre + length ws \<le> 512 \<and> j \<le> 1 \<and> 1 \<le> c
     \<and> (j = 1 \<longrightarrow> length pre + length ws = 512)
     \<and> state t = (if j = 1 \<and> c = 1 then DVR_STOPPED else DVR_RECORDING)
     \<and> length (samples t) = 1024
     \<and> take (length pre + length ws) (drop base (samples t)) = pre @ ws
     \<and> pHead t = (base + length pre + length ws) mod 1024
     \<and> pTail t = (if j = 1 then 512 - base else base)
     \<and> unat (pageCount t) = (if length pre + length ws = 512 then c - 1 else c)
     \<and> newPage t = (if length pre + length ws = 512 \<and> j = 0 \<and> 1 < c then 1 else 0)
     \<and> stop t = (if length pre + length ws = 512 \<and> j = 0 \<and> c = 1 then 1 else 0)
     \<and> sampleCount t = (if j = 1 then sc1 + 512 else sc1)
     \<and> (finaliseHeader t = 0) = (j = 1 \<and> c = 1)
     \<and> (length pre + length ws = 512 \<and> c = 1 \<longrightarrow> ADCSRA t = 0)
     \<and> io_trace t = tr1 @ round_trace sc1 c (pre @ ws) j
     \<and> fs t = replay F (round_trace sc1 c (pre @ ws) j) f1"





section \<open>Bulk page reads\<close>

text \<open>
  C1 as stated: from a page-aligned read pointer, \<open>buffer_readPage\<close> returns the page
  opposite to the one the read pointer is in.  It does not: with the read pointer at the
  top of page 0 the page returned is page 0, not page 1.
\<close>

theorem C1_returns_opposite_page_counterexample:
  "pTail (probe0 0 pPage0) = pPage0 \<and> fst (buffer_readPage (probe0 0 pPage0)) \<noteq> pPage1"
  by (simp add: buffer_readPage_def probe0_def pPage0_def pPage1_def)

text \<open>
  C1 amended: from a page-aligned read pointer, \<open>buffer_readPage\<close> returns the page the
  read pointer is in and moves the read pointer to the top of the opposite page; nothing
  else of the state changes (the function takes no callback, so none can fire).  Two
  consecutive calls return the page the read pointer was in, then the other page, and
  leave the read pointer where it started.
\<close>

theorem C1_readPage_current_page:
  assumes "pTail s = pPage0 \<or> pTail s = pPage1"
  shows "fst (buffer_readPage s) = pTail s
       \<and> snd (buffer_readPage s) = s\<lparr>pTail := (if pTail s = pPage0 then pPage1 else pPage0)\<rparr>
       \<and> fst (buffer_readPage (snd (buffer_readPage s))) = (if pTail s = pPage0 then pPage1 else pPage0)
       \<and> snd (buffer_readPage (snd (buffer_readPage s))) = s"
  using assms by (auto simp: buffer_readPage_def pPage0_def pPage1_def)

theorem C1_readPage_current_page_witness:
  "pTail (probe0 0 pPage1) = pPage1
   \<and> fst (buffer_readPage (probe0 0 pPage1)) = pPage1
   \<and> pTail (snd (buffer_readPage (probe0 0 pPage1))) = pPage0
   \<and> fst (buffer_readPage (snd (buffer_readPage (probe0 0 pPage1)))) = pPage0"
proof -
  have h: "pTail (probe0 0 pPage1) = pPage0 \<or> pTail (probe0 0 pPage1) = pPage1"
    by (simp add: probe0_def)
  show ?thesis
    using C1_readPage_current_page [OF h]
    by (simp add: buffer_readPage_def probe0_def pPage0_def pPage1_def)
qed

section \<open>Byte-wise queueing\<close>

lemma buffer_queue_pHead:
  assumes "\<And>t. pHead (cb t) = pHead t"
  shows "pHead (buffer_queue cb w s) = (if pHead s + 1 = pEnd then pPage0 else pHead s + 1)"
  using assms by (simp add: buffer_queue_def Let_def pPage0_def pPage1_def pEnd_def)

lemma queue_all_pHead:
  assumes "\<And>t. pHead (cb t) = pHead t" and "pHead s < pEnd"
  shows "pHead (queue_all cb ws s) = (pHead s + length ws) mod pEnd"
  using assms(2)
proof (induction ws arbitrary: s)
  case Nil
  then show ?case by simp
next
  case (Cons w ws)
  have step: "pHead (buffer_queue cb w s) = (if pHead s + 1 = pEnd then pPage0 else pHead s + 1)"
    using assms(1) by (rule buffer_queue_pHead)
  have "pHead (buffer_queue cb w s) < pEnd"
    using Cons.prems by (simp add: step pPage0_def pEnd_def)
  then have "pHead (queue_all cb ws (buffer_queue cb w s))
      = (pHead (buffer_queue cb w s) + length ws) mod pEnd"
    by (rule Cons.IH)
  also have "\<dots> = (pHead s + length (w # ws)) mod pEnd"
  proof (cases "pHead s + 1 = pEnd")
    case True
    then have "pHead s + length (w # ws) = pEnd + length ws" by simp
    then have "(pHead s + length (w # ws)) mod pEnd = length ws mod pEnd"
      by (simp only: mod_add_self1)
    moreover have "pHead (buffer_queue cb w s) = 0"
      using True by (simp add: step pPage0_def)
    ultimately show ?thesis by simp
  next
    case False
    then show ?thesis by (simp add: step)
  qed
  finally show ?case by simp
qed

lemma count_call_pHead: "pHead (count_call t) = pHead t"
  by (simp add: count_call_def)

lemma buffer_queue_fired:
  "fired (buffer_queue count_call w s)
     = fired s + (if pHead s + 1 = pPage1 \<or> pHead s + 1 = pEnd then 1 else 0)"
  by (simp add: buffer_queue_def count_call_def Let_def pPage1_def pEnd_def)

lemma page_count_step:
  fixes p n :: nat
  assumes "p < 1024"
  shows "(if p + 1 = 512 \<or> p + 1 = 1024 then 1 else 0)
          + ((if p + 1 = 1024 then 0 else p + 1) mod 512 + n) div 512
        = (p mod 512 + Suc n) div 512"
proof -
  consider "p = 1023" | "p = 511" | "p < 511" | "512 \<le> p" "p < 1023"
    using assms by linarith
  then show ?thesis
  proof cases
    case 1
    then show ?thesis by simp
  next
    case 2
    then show ?thesis by simp
  next
    case 3
    then show ?thesis by simp
  next
    case 4
    then have "p mod 512 = p - 512" and "(p + 1) mod 512 = p - 511"
      by (simp_all add: mod_if)
    then show ?thesis using 4 by simp
  qed
qed

lemma queue_all_fired:
  assumes "pHead s < pEnd"
  shows "fired (queue_all count_call ws s)
     = fired s + (pHead s mod pPage1 + length ws) div pPage1"
  using assms
proof (induction ws arbitrary: s)
  case Nil
  then show ?case by (simp add: pPage1_def)
next
  case (Cons w ws)
  let ?s1 = "buffer_queue count_call w s"
  have h: "pHead ?s1 = (if pHead s + 1 = pEnd then pPage0 else pHead s + 1)"
    by (rule buffer_queue_pHead) (rule count_call_pHead)
  have p: "pHead s < 1024"
    using Cons.prems by (simp add: pEnd_def)
  have lt: "pHead ?s1 < pEnd"
    using Cons.prems by (simp add: h pPage0_def pEnd_def)
  have "fired (queue_all count_call ws ?s1)
      = fired ?s1 + (pHead ?s1 mod pPage1 + length ws) div pPage1"
    using lt by (rule Cons.IH)
  also have "\<dots> = fired s + ((if pHead s + 1 = 512 \<or> pHead s + 1 = 1024 then 1 else 0)
          + ((if pHead s + 1 = 1024 then 0 else pHead s + 1) mod 512 + length ws) div 512)"
    by (simp only: h buffer_queue_fired pPage0_def pPage1_def pEnd_def add.assoc)
  also have "\<dots> = fired s + (pHead s mod 512 + Suc (length ws)) div 512"
    by (simp only: page_count_step [OF p])
  finally show ?case by (simp add: pPage1_def)
qed

text \<open>
  C3: for every sequence of pushes from any write pointer inside the buffer, and any
  callback that leaves the write pointer alone, the write pointer after the pushes is
  (initial + k) mod 1024 and lies inside the buffer.  With the counting callback, one push
  calls back exactly when the advanced pointer reaches offset 512 or offset 1024, and k
  pushes call back once per such boundary crossed: (initial mod 512 + k) div 512 times,
  which is k div 512 from a page-aligned start.
\<close>

theorem C3_queue_cursor_and_callbacks:
  assumes "pHead s < pEnd" and "\<And>t. pHead (cb t) = pHead t" and "pHead p < pEnd"
  shows "pHead (queue_all cb ws s) = (pHead s + length ws) mod pEnd
       \<and> pHead (queue_all cb ws s) < pEnd
       \<and> fired (buffer_queue count_call w p)
           = fired p + (if pHead p + 1 = pPage1 \<or> pHead p + 1 = pEnd then 1 else 0)
       \<and> fired (queue_all count_call ws p)
           = fired p + (pHead p mod pPage1 + length ws) div pPage1
       \<and> fired (queue_all count_call ws (p\<lparr>pHead := pPage0\<rparr>)) = fired p + length ws div pPage1
       \<and> fired (queue_all count_call ws (p\<lparr>pHead := pPage1\<rparr>)) = fired p + length ws div pPage1"
proof -
  have a: "pHead (queue_all cb ws s) = (pHead s + length ws) mod pEnd"
    using assms(2) assms(1) by (rule queue_all_pHead)
  have b: "pHead (queue_all cb ws s) < pEnd"
    by (simp add: a pEnd_def)
  have c: "fired (queue_all count_call ws p)
           = fired p + (pHead p mod pPage1 + length ws) div pPage1"
    using assms(3) by (rule queue_all_fired)
  have d: "fired (queue_all count_call ws (p\<lparr>pHead := pPage0\<rparr>)) = fired p + length ws div pPage1"
    using queue_all_fired [of "p\<lparr>pHead := pPage0\<rparr>" ws] by (simp add: pPage0_def pPage1_def pEnd_def)
  have e: "fired (queue_all count_call ws (p\<lparr>pHead := pPage1\<rparr>)) = fired p + length ws div pPage1"
    using queue_all_fired [of "p\<lparr>pHead := pPage1\<rparr>" ws] by (simp add: pPage0_def pPage1_def pEnd_def)
  show ?thesis using a b c d e buffer_queue_fired by blast
qed

theorem C3_queue_cursor_and_callbacks_witness:
  "pHead (queue_all count_call [1, 2, 3] (probe0 510 0)) = 513
   \<and> fired (queue_all count_call [1, 2, 3] (probe0 510 0)) = 1
   \<and> fired (queue_all count_call [1, 2, 3] (probe0 0 0)) = 0"
proof -
  have h: "pHead (probe0 510 0) < pEnd" by (simp add: probe0_def pEnd_def)
  show ?thesis
    using C3_queue_cursor_and_callbacks [OF h count_call_pHead h, of "[1, 2, 3]" 0]
    by (simp add: probe0_def pPage0_def pPage1_def pEnd_def)
qed


section \<open>Round trip through the buffer\<close>

lemma queue_all_samples:
  assumes cb: "\<And>t. samples (cb t) = samples t \<and> pHead (cb t) = pHead t \<and> pTail (cb t) = pTail t"
    and "length (samples s) = pEnd" and "pHead s + length ws \<le> pEnd"
  shows "samples (queue_all cb ws s)
           = take (pHead s) (samples s) @ ws @ drop (pHead s + length ws) (samples s)
       \<and> pTail (queue_all cb ws s) = pTail s"
  using assms(2,3)
proof (induction ws arbitrary: s)
  case Nil
  then show ?case by simp
next
  case (Cons w ws)
  let ?s1 = "buffer_queue cb w s"
  have lt: "pHead s < length (samples s)"
    using Cons.prems by simp
  have s1: "samples ?s1 = (samples s)[pHead s := w]" "pTail ?s1 = pTail s"
    "pHead ?s1 = (if pHead s + 1 = pEnd then pPage0 else pHead s + 1)"
    using cb by (simp_all add: buffer_queue_def Let_def pPage0_def pPage1_def pEnd_def)
  have upd: "take (pHead s) (samples s) @ w # drop (Suc (pHead s)) (samples s) = (samples s)[pHead s := w]"
    using lt by (simp add: upd_conv_take_nth_drop)
  show ?case
  proof (cases ws)
    case Nil
    then show ?thesis using s1 upd by simp
  next
    case (Cons v vs)
    then have ne: "pHead s + 1 \<noteq> pEnd" using Cons.prems by simp
    have "samples (queue_all cb ws ?s1)
           = take (pHead ?s1) (samples ?s1) @ ws @ drop (pHead ?s1 + length ws) (samples ?s1)
       \<and> pTail (queue_all cb ws ?s1) = pTail ?s1"
      using Cons.prems ne by (intro Cons.IH) (simp_all add: s1)
    moreover have "take (pHead ?s1) (samples ?s1) = take (pHead s) (samples s) @ [w]"
      using lt ne by (simp add: s1 take_Suc_conv_app_nth)
    moreover have "drop (pHead ?s1 + length ws) (samples ?s1) = drop (pHead s + length (w # ws)) (samples s)"
      using ne by (simp add: s1)
    ultimately show ?thesis by (simp add: s1)
  qed
qed

lemma dequeue_n_fst:
  assumes cb: "\<And>t. samples (cb t) = samples t \<and> pTail (cb t) = pTail t"
    and "length (samples s) = pEnd" and "pTail s + n \<le> pEnd"
  shows "fst (dequeue_n cb n s) = take n (drop (pTail s) (samples s))"
  using assms(2,3)
proof (induction n arbitrary: s)
  case 0
  then show ?case by simp
next
  case (Suc n)
  let ?s1 = "snd (buffer_dequeue cb s)"
  have lt: "pTail s < length (samples s)"
    using Suc.prems by simp
  have s1: "fst (buffer_dequeue cb s) = samples s ! pTail s" "samples ?s1 = samples s"
    "pTail ?s1 = (if pTail s + 1 = pEnd then pPage0 else pTail s + 1)"
    using cb by (simp_all add: buffer_dequeue_def Let_def pPage0_def pPage1_def pEnd_def)
  have hd: "take (Suc n) (drop (pTail s) (samples s))
            = samples s ! pTail s # take n (drop (Suc (pTail s)) (samples s))"
    using lt by (simp add: Cons_nth_drop_Suc [symmetric])
  show ?case
  proof (cases n)
    case 0
    then show ?thesis using s1 hd by (simp add: split_beta)
  next
    case (Suc m)
    then have ne: "pTail s + 1 \<noteq> pEnd" using Suc.prems by simp
    have "fst (dequeue_n cb n ?s1) = take n (drop (pTail ?s1) (samples ?s1))"
      using Suc.prems ne by (intro Suc.IH) (simp_all add: s1)
    then show ?thesis using ne hd by (simp add: s1 split_beta)
  qed
qed

text \<open>
  C4: from a reset buffer (any 1024-byte contents), pushing at most 1024 bytes one at a
  time with \<open>buffer_queue\<close> and then taking as many out one at a time with
  \<open>buffer_dequeue\<close> returns the bytes pushed, in order, for all callbacks that leave the
  array and the two pointers alone.
\<close>

theorem C4_queue_dequeue_roundtrip:
  assumes "length (samples s) = pEnd" and "length ws \<le> pEnd"
    and "\<And>t. samples (cbF t) = samples t \<and> pHead (cbF t) = pHead t \<and> pTail (cbF t) = pTail t"
    and "\<And>t. samples (cbE t) = samples t \<and> pTail (cbE t) = pTail t"
  shows "fst (dequeue_n cbE (length ws) (queue_all cbF ws (buffer_reset s))) = ws"
proof -
  let ?r = "buffer_reset s"
  let ?q = "queue_all cbF ws ?r"
  have r: "length (samples ?r) = pEnd" "pHead ?r = 0" "pTail ?r = 0"
    using assms(1) by (simp_all add: buffer_reset_def pPage0_def)
  have q: "samples ?q = take (pHead ?r) (samples ?r) @ ws @ drop (pHead ?r + length ws) (samples ?r)
       \<and> pTail ?q = pTail ?r"
    using assms(3) r(1) by (rule queue_all_samples) (simp add: r assms(2))
  then have q': "samples ?q = ws @ drop (length ws) (samples ?r)" "pTail ?q = 0"
    by (simp_all add: r)
  have len: "length (samples ?q) = pEnd"
    using assms(2) by (simp add: q' r)
  have "fst (dequeue_n cbE (length ws) ?q) = take (length ws) (drop (pTail ?q) (samples ?q))"
    using assms(4) len by (rule dequeue_n_fst) (simp add: q' assms(2))
  then show ?thesis by (simp add: q')
qed

theorem C4_queue_dequeue_roundtrip_witness:
  "fst (dequeue_n count_call 3 (queue_all count_call [7, 8, 9] (buffer_reset (probe0 5 9)))) = [7, 8, 9]"
proof -
  have a: "length (samples (probe0 5 9)) = pEnd" by (simp add: probe0_def pEnd_def)
  have b: "length [7, 8, 9 :: 8 word] \<le> pEnd" by (simp add: pEnd_def)
  have c: "\<And>t. samples (count_call t) = samples t \<and> pHead (count_call t) = pHead t \<and> pTail (count_call t) = pTail t"
    by (simp add: count_call_def)
  have d: "\<And>t. samples (count_call t) = samples t \<and> pTail (count_call t) = pTail t"
    by (simp add: count_call_def)
  show ?thesis
    using C4_queue_dequeue_roundtrip [OF a b c d] by (simp add: numeral_3_eq_3)
qed


section \<open>The page-full callback\<close>

text \<open>
  C5: every call of \<open>pageFull\<close> decrements the page countdown by one (a 16-bit
  decrement).  If the countdown is then zero the call stops the ADC (\<open>ADCSRA\<close> cleared) and
  sets the \<open>stop\<close> flag; otherwise it sets the \<open>newPage\<close> flag.  Nothing else changes: in
  particular the file-system state and the list of FatFs calls are as before.
\<close>

theorem C5_pageFull_countdown:
  "pageCount (pageFull s) = pageCount s - 1
   \<and> pageFull s =
       (if pageCount s - 1 = 0 then s\<lparr>pageCount := 0, ADCSRA := 0, stop := 1\<rparr>
        else s\<lparr>pageCount := pageCount s - 1, newPage := 1\<rparr>)
   \<and> fs (pageFull s) = fs s
   \<and> io_trace (pageFull s) = io_trace s"
  by (simp add: pageFull_def adc_stop_def Let_def)

section \<open>The state machine's default case\<close>

text \<open>
  C8: when \<open>state\<close> holds none of the three enumerated values, one loop iteration ends and
  leaves \<open>state = DVR_STOPPED\<close>; besides the button history it only touches the LEDs.
\<close>

theorem C8_invalid_state_to_stopped:
  assumes "state s \<noteq> DVR_STOPPED" and "state s \<noteq> DVR_RECORDING" and "state s \<noteq> DVR_PLAYING"
  shows "main_loop F pb s
           = Some (s\<lparr>pb_prev := pb, state := DVR_STOPPED,
                     PORTD := (PORTD s OR push_bit PIND6 1) AND 0b10001111\<rparr>)
       \<and> map_option state (main_loop F pb s) = Some DVR_STOPPED"
  using assms by (simp add: main_loop_def Let_def)

theorem C8_invalid_state_to_stopped_witness:
  "map_option state (main_loop memfs 0x40 ((power_on \<lparr>content = [], fptr = 0\<rparr>)\<lparr>state := 7\<rparr>))
     = Some DVR_STOPPED"
proof -
  let ?s = "(power_on \<lparr>content = [], fptr = 0\<rparr>)\<lparr>state := 7\<rparr>"
  have a: "state ?s \<noteq> DVR_STOPPED" by (simp add: DVR_STOPPED_def)
  have b: "state ?s \<noteq> DVR_RECORDING" by (simp add: DVR_RECORDING_def)
  have c: "state ?s \<noteq> DVR_PLAYING" by (simp add: DVR_PLAYING_def)
  show ?thesis
    using C8_invalid_state_to_stopped [OF a b c, of memfs "0x40"] by simp
qed

section \<open>Opening a WAVE file\<close>

lemma bytes_le4:
  "bytes_le 4 w = [ucast w, ucast (drop_bit 8 w), ucast (drop_bit 16 w), ucast (drop_bit 24 w)]"
  by (simp add: bytes_le_def upt_rec)

lemma length_bytes_le: "length (bytes_le n w) = n"
  by (simp add: bytes_le_def)

lemma word_le_bytes_le4: "word_le (bytes_le 4 (w :: 32 word)) = w"
proof (rule bit_word_eqI)
  fix n :: nat
  assume n: "n < LENGTH(32)"
  consider "n < 8" | "8 \<le> n" "n < 16" | "16 \<le> n" "n < 24" | "24 \<le> n" by linarith
  then show "bit (word_le (bytes_le 4 w) :: 32 word) n = bit w n"
    unfolding bytes_le4 word_le_def using n
    by cases (auto simp: bit_simps)
qed

lemma length_header_bytes:
  assumes "length (ChunkID h) = 4" and "length (Format h) = 4"
    and "length (fmtID h) = 4" and "length (dataID h) = 4"
  shows "length (header_bytes h) = 44"
  using assms by (simp add: header_bytes_def length_bytes_le)

lemma header_dataSize_header_bytes:
  assumes "length (ChunkID h) = 4" and "length (Format h) = 4"
    and "length (fmtID h) = 4" and "length (dataID h) = 4"
  shows "header_dataSize (header_bytes h @ xs) = dataSize h"
  using assms by (simp add: header_dataSize_def header_bytes_def length_bytes_le word_le_bytes_le4)

lemma wave_file_header:
  "take 44 (wave_file n payload) = wave_file n []"
  "length (wave_file n payload) = 44 + length payload"
  "header_dataSize (wave_file n []) = n"
  "drop 44 (wave_file n payload) = payload"
proof -
  let ?h = "(initialise_header 15625 8 1)\<lparr>ChunkSize := 36 + n, dataSize := n\<rparr>"
  have l: "length (ChunkID ?h) = 4" "length (Format ?h) = 4" "length (fmtID ?h) = 4"
    "length (dataID ?h) = 4"
    by (simp_all add: initialise_header_def set_char_array_def)
  have len: "length (header_bytes ?h) = 44"
    using l by (rule length_header_bytes)
  show "take 44 (wave_file n payload) = wave_file n []"
    by (simp add: wave_file_def len)
  show "length (wave_file n payload) = 44 + length payload"
    by (simp add: wave_file_def len)
  show "header_dataSize (wave_file n []) = n"
    using header_dataSize_header_bytes [OF l, of "[]"] by (simp add: wave_file_def)
  show "drop 44 (wave_file n payload) = payload"
    by (simp add: wave_file_def len)
qed

lemma br_short:
  assumes "n \<le> 44"
  shows "((of_nat n :: 16 word) \<noteq> 44) = (n < 44)"
proof -
  have "((of_nat n :: 16 word) = of_nat 44) = (take_bit 16 n = take_bit 16 (44::nat))"
    by (simp only: word_of_nat_eq_iff) simp
  moreover have "take_bit 16 n = n"
    using assms by (simp add: take_bit_nat_eq_self)
  ultimately show ?thesis using assms by auto
qed

lemma result_or_short: "((result::nat) OR of_bool b \<noteq> 0) = (result \<noteq> 0 \<or> b)"
  by (cases b) (simp_all add: or_eq_0_iff)

text \<open>
  C10: \<open>wave_open\<close> ignores the result of \<open>f_open\<close> and returns what \<open>read_wave_header\<close>
  returns: 0 when \<open>f_read\<close> reports an error or transfers fewer than 44 bytes, and
  otherwise the \<open>dataSize\<close> field (bytes 40 to 43, little-endian) of the 44 bytes read.  The
  return value is all it reports.
\<close>

theorem C10_wave_open_result:
  assumes "length (waveHeader s) = 44"
    and "f_open F (fs s) ''EGB240.WAV'' [FA_READ] = (r0, fs1)"
    and "f_read F fs1 44 = (result, rd, fs2)"
  shows "fst (wave_open F s)
           = (if result \<noteq> 0 \<or> length rd < 44 then 0 else header_dataSize (take 44 rd))
       \<and> waveHeader (snd (wave_open F s)) = take 44 rd @ drop (length rd) (waveHeader s)"
proof -
  have br: "((of_nat (min (length rd) 44) :: 16 word) \<noteq> 44) = (length rd < 44)"
    using br_short [of "min (length rd) 44"] by auto
  have dr: "drop (min (length rd) 44) (waveHeader s) = drop (length rd) (waveHeader s)"
    using assms(1) by (cases "length rd \<le> 44") (simp_all add: min_def)
  show ?thesis
    using assms
    by (simp add: wave_open_def read_wave_header_def Let_def result_or_short or_eq_0_iff br dr
        store_bytes_def)
qed

theorem C10_wave_open_result_witness:
  "fst (wave_open memfs (power_on \<lparr>content = wave_file 768 (replicate 768 1), fptr = 0\<rparr>)) = 768
   \<and> fst (wave_open memfs (power_on \<lparr>content = [1, 2, 3], fptr = 0\<rparr>)) = 0"
proof -
  let ?f = "\<lparr>content = wave_file 768 (replicate 768 1), fptr = 0\<rparr>"
  let ?g = "\<lparr>content = [1, 2, 3], fptr = 0\<rparr>"
  have a: "length (waveHeader (power_on f)) = 44" for f :: memfile
    by (simp add: power_on_def)
  have b: "f_open memfs (fs (power_on f)) ''EGB240.WAV'' [FA_READ] = (0, f\<lparr>fptr := 0\<rparr>)" for f
    by (simp add: memfs_def power_on_def)
  have c: "f_read memfs (?f\<lparr>fptr := 0\<rparr>) 44 = (0, wave_file 768 [], ?f\<lparr>fptr := 44\<rparr>)"
    by (simp add: memfs_def wave_file_header)
  have d: "f_read memfs (?g\<lparr>fptr := 0\<rparr>) 44 = (0, [1, 2, 3], ?g\<lparr>fptr := 3\<rparr>)"
    by (simp add: memfs_def)
  show ?thesis
    using C10_wave_open_result [OF a b c] C10_wave_open_result [OF a b d]
    by (simp add: wave_file_header)
qed

section \<open>The consumer interrupt\<close>

lemma buffer_dequeue_facts:
  assumes "\<And>t. samples (cb t) = samples t \<and> pTail (cb t) = pTail t"
  shows "fst (buffer_dequeue cb s) = samples s ! pTail s"
    and "samples (snd (buffer_dequeue cb s)) = samples s"
    and "pTail (snd (buffer_dequeue cb s)) = (if pTail s + 1 = pEnd then pPage0 else pTail s + 1)"
  using assms by (simp_all add: buffer_dequeue_def Let_def pPage0_def pPage1_def pEnd_def)

lemma dequeue_n_cong:
  assumes "\<And>t. samples (cb t) = samples t \<and> pTail (cb t) = pTail t"
    and "\<And>t. samples (cb' t) = samples t \<and> pTail (cb' t) = pTail t"
    and "samples s = samples s'" and "pTail s = pTail s'"
  shows "fst (dequeue_n cb n s) = fst (dequeue_n cb' n s')"
  using assms(3,4)
proof (induction n arbitrary: s s')
  case 0
  then show ?case by simp
next
  case (Suc n)
  have "fst (dequeue_n cb n (snd (buffer_dequeue cb s)))
        = fst (dequeue_n cb' n (snd (buffer_dequeue cb' s')))"
    using Suc.prems
    by (intro Suc.IH) (simp_all add: buffer_dequeue_facts [OF assms(1)] buffer_dequeue_facts [OF assms(2)])
  then show ?case
    using Suc.prems
    by (simp add: split_beta buffer_dequeue_facts [OF assms(1)] buffer_dequeue_facts [OF assms(2)])
qed

lemma length_dequeue_n: "length (fst (dequeue_n cb n s)) = n"
  by (induction n arbitrary: s) (simp_all add: split_beta)

lemma pageEmpty_keeps:
  "samples (pageEmpty t) = samples t \<and> pTail (pageEmpty t) = pTail t"
  "pHead (pageEmpty t) = pHead t"
  "pwm_trace (pageEmpty t) = pwm_trace t"
  "overflow_reset (pageEmpty t) = overflow_reset t"
  "overflow_counter (pageEmpty t) = overflow_counter t"
  "io_trace (pageEmpty t) = io_trace t"
  by (simp_all add: pageEmpty_def Let_def)

lemma buffer_dequeue_pageEmpty_keeps:
  "pwm_trace (snd (buffer_dequeue pageEmpty t)) = pwm_trace t"
  "overflow_reset (snd (buffer_dequeue pageEmpty t)) = overflow_reset t"
  by (simp_all add: buffer_dequeue_def Let_def pageEmpty_keeps)

lemma TIMER1_OVF_vect_eq:
  "TIMER1_OVF_vect t =
     (if overflow_counter t + 1 = overflow_reset t
      then (snd (buffer_dequeue pageEmpty (t\<lparr>overflow_counter := overflow_counter t + 1\<rparr>)))
             \<lparr>OCR1B := ucast (samples t ! pTail t),
              pwm_trace := pwm_trace t @ [samples t ! pTail t],
              overflow_counter := 0\<rparr>
      else t\<lparr>overflow_counter := overflow_counter t + 1\<rparr>)"
  by (simp add: TIMER1_OVF_vect_def Let_def split_beta buffer_dequeue_pageEmpty_keeps
      buffer_dequeue_facts [OF pageEmpty_keeps(1)])

lemma TIMER1_OVF_vect_fire:
  assumes "overflow_counter t + 1 = overflow_reset t"
  shows "pwm_trace (TIMER1_OVF_vect t) = pwm_trace t @ [samples t ! pTail t]"
    and "samples (TIMER1_OVF_vect t) = samples t"
    and "pTail (TIMER1_OVF_vect t) = (if pTail t + 1 = pEnd then pPage0 else pTail t + 1)"
    and "overflow_counter (TIMER1_OVF_vect t) = 0"
    and "overflow_reset (TIMER1_OVF_vect t) = overflow_reset t"
  using assms
  by (simp_all add: TIMER1_OVF_vect_eq buffer_dequeue_pageEmpty_keeps
      buffer_dequeue_facts [OF pageEmpty_keeps(1)])

lemma unat_succ_below:
  fixes c r :: "8 word"
  assumes "unat c < unat r"
  shows "unat (c + 1) = unat c + 1" and "(c + 1 = r) = (unat c + 1 = unat r)"
proof -
  have "unat r < 2 ^ LENGTH(8)" by (rule unsigned_less)
  then have "unat c + unat (1 :: 8 word) < 2 ^ LENGTH(8)" using assms by simp
  then have "unat (c + 1) = unat c + unat (1 :: 8 word)" by (simp only: unat_add_lem)
  then show a: "unat (c + 1) = unat c + 1" by simp
  show "(c + 1 = r) = (unat c + 1 = unat r)"
    by (simp add: word_unat_eq_iff [of "c + 1" r] a)
qed

lemma timer1_ticks_trace:
  assumes "unat (overflow_counter s) < unat (overflow_reset s)"
  shows "pwm_trace (timer1_ticks k s)
           = pwm_trace s @ fst (dequeue_n pageEmpty
               ((unat (overflow_counter s) + k) div unat (overflow_reset s)) s)"
  using assms
proof (induction k arbitrary: s)
  case 0
  then show ?case by simp
next
  case (Suc k)
  let ?c = "unat (overflow_counter s)"
  let ?N = "unat (overflow_reset s)"
  let ?t = "TIMER1_OVF_vect s"
  note w = unat_succ_below [OF Suc.prems]
  show ?case
  proof (cases "?c + 1 = ?N")
    case True
    then have fire: "overflow_counter s + 1 = overflow_reset s" by (simp add: w)
    note f = TIMER1_OVF_vect_fire [OF fire]
    have N: "0 < ?N" using Suc.prems by simp
    have "pwm_trace (timer1_ticks k ?t)
           = pwm_trace ?t @ fst (dequeue_n pageEmpty ((unat (overflow_counter ?t) + k) div unat (overflow_reset ?t)) ?t)"
      using N by (intro Suc.IH) (simp add: f)
    also have "\<dots> = pwm_trace s @ [samples s ! pTail s] @ fst (dequeue_n pageEmpty (k div ?N) ?t)"
      by (simp add: f)
    also have "fst (dequeue_n pageEmpty (k div ?N) ?t)
               = fst (dequeue_n pageEmpty (k div ?N) (snd (buffer_dequeue pageEmpty s)))"
      by (rule dequeue_n_cong [OF pageEmpty_keeps(1) pageEmpty_keeps(1)])
         (simp_all add: f buffer_dequeue_facts [OF pageEmpty_keeps(1)])
    also have "[samples s ! pTail s] @ fst (dequeue_n pageEmpty (k div ?N) (snd (buffer_dequeue pageEmpty s)))
               = fst (dequeue_n pageEmpty (Suc (k div ?N)) s)"
      by (simp add: split_beta buffer_dequeue_facts [OF pageEmpty_keeps(1)])
    also have "Suc (k div ?N) = (?c + Suc k) div ?N"
    proof -
      have "?c + Suc k = ?N + k" using True by simp
      then show ?thesis using N by (simp only: div_add_self1)
    qed
    finally show ?thesis by simp
  next
    case False
    then have nofire: "overflow_counter s + 1 \<noteq> overflow_reset s" by (simp add: w)
    have t: "?t = s\<lparr>overflow_counter := overflow_counter s + 1\<rparr>"
      using nofire by (simp add: TIMER1_OVF_vect_eq)
    have "pwm_trace (timer1_ticks k ?t)
           = pwm_trace ?t @ fst (dequeue_n pageEmpty ((unat (overflow_counter ?t) + k) div unat (overflow_reset ?t)) ?t)"
      using False Suc.prems by (intro Suc.IH) (simp add: t w)
    also have "\<dots> = pwm_trace s @ fst (dequeue_n pageEmpty ((?c + Suc k) div ?N) ?t)"
      by (simp add: t w)
    also have "fst (dequeue_n pageEmpty ((?c + Suc k) div ?N) ?t)
               = fst (dequeue_n pageEmpty ((?c + Suc k) div ?N) s)"
      by (rule dequeue_n_cong [OF pageEmpty_keeps(1) pageEmpty_keeps(1)]) (simp_all add: t)
    finally show ?thesis by simp
  qed
qed


text \<open>
  C9: from a zeroed tick counter and a non-zero divisor N = \<open>overflow_reset\<close>, after k runs
  of the Timer1 overflow routine the samples written to the PWM compare register are
  exactly those that k div N calls of \<open>buffer_dequeue\<close> return, in order, so k div N pops
  have occurred.  A tick on which the incremented counter differs from N changes the
  counter and nothing else; a tick on which it equals N pops one sample, writes it to
  \<open>OCR1B\<close> and zeroes the counter.
\<close>

theorem C9_consumer_tick_divisor:
  assumes "overflow_counter s = 0" and "overflow_reset s \<noteq> 0"
  shows "pwm_trace (timer1_ticks k s)
           = pwm_trace s @ fst (dequeue_n pageEmpty (k div unat (overflow_reset s)) s)
       \<and> length (pwm_trace (timer1_ticks k s))
           = length (pwm_trace s) + k div unat (overflow_reset s)
       \<and> TIMER1_OVF_vect t =
           (if overflow_counter t + 1 = overflow_reset t
            then (snd (buffer_dequeue pageEmpty (t\<lparr>overflow_counter := overflow_counter t + 1\<rparr>)))
                   \<lparr>OCR1B := ucast (samples t ! pTail t),
                    pwm_trace := pwm_trace t @ [samples t ! pTail t],
                    overflow_counter := 0\<rparr>
            else t\<lparr>overflow_counter := overflow_counter t + 1\<rparr>)"
proof -
  have "unat (overflow_reset s) \<noteq> 0"
    using assms(2) by (simp add: unat_eq_0)
  then have lt: "unat (overflow_counter s) < unat (overflow_reset s)"
    using assms(1) by simp
  have a: "pwm_trace (timer1_ticks k s)
           = pwm_trace s @ fst (dequeue_n pageEmpty (k div unat (overflow_reset s)) s)"
    using timer1_ticks_trace [OF lt, of k] assms(1) by simp
  then have b: "length (pwm_trace (timer1_ticks k s))
           = length (pwm_trace s) + k div unat (overflow_reset s)"
    by (simp add: length_dequeue_n)
  show ?thesis
    using a b TIMER1_OVF_vect_eq [of t] by blast
qed

theorem C9_consumer_tick_divisor_witness:
  "length (pwm_trace (timer1_ticks 5 (power_on \<lparr>content = [], fptr = 0\<rparr>))) = 2"
proof -
  let ?s = "power_on \<lparr>content = [], fptr = 0\<rparr>"
  have a: "overflow_counter ?s = 0" by (simp add: power_on_def)
  have b: "overflow_reset ?s \<noteq> 0" by (simp add: power_on_def)
  have c: "overflow_reset ?s = 2" "pwm_trace ?s = []" by (simp_all add: power_on_def)
  from C9_consumer_tick_divisor [OF a b, where k = 5 and t = "?s"]
  have "length (pwm_trace (timer1_ticks 5 ?s)) = length (pwm_trace ?s) + 5 div unat (overflow_reset ?s)"
    by blast
  then show ?thesis by (simp add: c)
qed

section \<open>Recording rounds\<close>

lemma replay_append: "replay F (es @ es') f = replay F es' (replay F es f)"
  by (induction F es f rule: replay.induct) simp_all

lemma release_loop_skip:
  assumes "pb_rise AND push_bit PINF6 1 = 0"
  shows "release_loop pb_rise s = Some s"
  using assms by (subst release_loop.simps) simp

lemma release_loop_Some:
  assumes "release_loop pb_rise s = Some y"
  shows "pb_rise AND push_bit PINF6 1 = 0"
proof (rule release_loop.raw_induct [where P = "\<lambda>pb s y. pb AND push_bit PINF6 1 = 0", OF _ assms])
  fix f :: "8 word \<Rightarrow> 'a \<Rightarrow> 'a option" and pb :: "8 word" and s y :: 'a
  assume IH: "\<And>s b y. f s b = Some y \<Longrightarrow> s AND push_bit PINF6 1 = 0"
    and step: "(if pb AND push_bit PINF6 1 \<noteq> 0 then f pb s else Some s) = Some y"
  show "pb AND push_bit PINF6 1 = 0"
  proof (rule ccontr)
    assume n: "pb AND push_bit PINF6 1 \<noteq> 0"
    then have "f pb s = Some y" using step by simp
    then show False using IH n by blast
  qed
qed

lemma release_loop_hang:
  assumes "pb_rise AND push_bit PINF6 1 \<noteq> 0"
  shows "release_loop pb_rise s = None"
proof (cases "release_loop pb_rise s")
  case None
  then show ?thesis .
next
  case (Some y)
  then have "pb_rise AND push_bit PINF6 1 = 0" by (rule release_loop_Some)
  then show ?thesis using assms by simp
qed

lemma take_snoc_update:
  assumes "n < length xs" and "m = Suc n"
  shows "take m (xs[n := w]) = take n xs @ [w]"
  using assms by (simp add: take_Suc_conv_app_nth)

lemma drop_take_snoc_update:
  assumes "b + n < length xs" and "m = Suc n"
  shows "take m (drop b (xs[b + n := w])) = take n (drop b xs) @ [w]"
proof -
  have "drop b (xs[b + n := w]) = (drop b xs)[n := w]"
    by (simp add: drop_update_swap)
  then show ?thesis
    using assms by (simp add: take_snoc_update)
qed

lemma unat_is_1: "(unat (x :: 16 word) = Suc 0) = (x = 1)" "(Suc 0 = unat x) = (x = 1)"
  by (auto simp add: word_unat_eq_iff [of x 1])

lemma countdown_step:
  fixes x :: "16 word"
  assumes "1 \<le> unat x"
  shows "unat (x - 1) = unat x - 1" and "(x - 1 = 0) = (unat x = 1)"
proof -
  have nz: "x \<noteq> 0" using assms by (auto simp: unat_eq_0)
  then show a: "unat (x - 1) = unat x - 1" by (rule unat_minus_one)
  show "(x - 1 = 0) = (unat x = 1)"
    using assms a by (metis One_nat_def Suc_pred diff_is_0_eq le_numeral_extra(4) unat_eq_0
        less_one not_le zero_less_diff diff_self_eq_0 le_antisym)
qed

lemma round_sample:
  assumes "round_inv F tr1 f1 sc1 c base pre ws j t" and "length pre + length ws < 512"
  shows "round_inv F tr1 f1 sc1 c base pre (ws @ [w]) j (ADC_vect w t)"
proof -
  let ?k = "length pre + length ws"
  note i = assms(1) [unfolded round_inv_def]
  have j: "j = 0" using i assms(2) by auto
  have h: "pHead t = base + ?k" using i assms(2) by auto
  have lt: "base + ?k < length (samples t)" using i assms(2) by auto
  have tk: "take (Suc ?k) (drop base ((samples t)[base + ?k := w])) = (pre @ ws) @ [w]"
    using drop_take_snoc_update [OF lt refl, of w] i by simp
  have pc: "1 \<le> unat (pageCount t)" using i assms(2) by auto
  note cd = countdown_step [OF pc]
  have c: "unat (pageCount t) = c" using i assms(2) by auto
  note defs = round_inv_def ADC_vect_def buffer_queue_def pageFull_def adc_stop_def Let_def
          pPage0_def pPage1_def pEnd_def round_trace_def
  consider "base = 0" "?k = 511" | "base = 512" "?k = 511" | "?k < 511"
    using i assms(2) by linarith
  then show ?thesis
  proof cases
    case 1
    show ?thesis using i 1 j h tk c by (auto simp: defs cd unat_is_1)
  next
    case 2
    show ?thesis using i 2 j h tk c by (auto simp: defs cd unat_is_1)
  next
    case 3
    show ?thesis using i 3 j h tk by (auto simp: defs)
  qed
qed


lemma round_tick_any:
  assumes inv: "round_inv F tr1 f1 sc1 1 base pre ws 0 (t :: 'f dvr)"
    and "length pre + length ws < 512"
  shows "\<exists>t'. main_loop F p t = Some t' \<and> round_inv F tr1 f1 sc1 1 base pre ws 0 t'"
proof -
  note i = inv [unfolded round_inv_def]
  note defs = round_inv_def main_loop_def Let_def split_beta round_trace_def
    DVR_STOPPED_def DVR_RECORDING_def DVR_PLAYING_def
  show ?thesis using i assms(2) by (simp add: defs)
qed

lemma main_loop_completion:
  assumes "state t = DVR_RECORDING" and "newPage t = 0" and "stop t \<noteq> 0"
  shows "main_loop F p t
           = map_option (\<lambda>u. u\<lparr>state := DVR_STOPPED\<rparr>)
               (release_loop (p AND (p XOR pb_prev t)) (completion F p t))"
  using assms
  by (simp add: main_loop_def completion_def Let_def split_beta
      DVR_STOPPED_def DVR_RECORDING_def DVR_PLAYING_def)

lemma completion_fields:
  assumes full: "\<And>f bs. fst (snd (f_write F f bs)) = of_nat (length bs)"
    and inv: "round_inv F tr1 f1 sc1 1 base pre ws 0 (t :: 'f dvr)"
    and "length pre + length ws = 512"
  shows "io_trace (completion F p t) = tr1 @ IO_write (pre @ ws) # finalise_trace (sc1 + 512)"
    and "fs (completion F p t) = replay F (IO_write (pre @ ws) # finalise_trace (sc1 + 512)) f1"
    and "ADCSRA (completion F p t) = 0"
    and "sampleCount (completion F p t) = sc1 + 512"
    and "finaliseHeader (completion F p t) = 0"
proof -
  note i = inv [unfolded round_inv_def]
  from i have e: "take (length pre + length ws) (drop base (samples t)) = pre @ ws" by blast
  have pg: "take 512 (drop base (samples t)) = pre @ ws"
    using e unfolding assms(3) .
  note defs = completion_def Let_def split_beta round_trace_def
    buffer_readPage_def wave_write_def wave_close_def finalise_wave_header_def
    finalise_trace_def adc_stop_def pPage0_def pPage1_def full
  have b: "base = 0 \<or> base = 512" using i by blast
  show "io_trace (completion F p t) = tr1 @ IO_write (pre @ ws) # finalise_trace (sc1 + 512)"
    using i assms(3) pg b by (auto simp: defs)
  show "fs (completion F p t) = replay F (IO_write (pre @ ws) # finalise_trace (sc1 + 512)) f1"
    using i assms(3) pg b by (auto simp: defs)
  show "ADCSRA (completion F p t) = 0"
    by (simp add: defs)
  show "sampleCount (completion F p t) = sc1 + 512"
    using i assms(3) pg b by (auto simp: defs)
  show "finaliseHeader (completion F p t) = 0"
    using i assms(3) by (auto simp: defs)
qed

lemma run_append:
  "run F (es @ es') s = (case run F es s of None \<Rightarrow> None | Some t \<Rightarrow> run F es' t)"
  by (induction F es s rule: run.induct) (simp_all split: option.splits)

lemma samples_of_append: "samples_of (es @ es') = samples_of es @ samples_of es'"
  by (induction es rule: samples_of.induct) simp_all

lemma samples_of_replicate: "samples_of (replicate n (Sample w)) = replicate n w"
  by (induction n) simp_all



lemma round_run_any:
  assumes "list_all rec_event evs"
    and "round_inv F tr1 f1 sc1 1 base pre ws 0 (t :: 'f dvr)"
    and "length pre + length ws + length (samples_of evs) < 512"
  shows "\<exists>t'. run F evs t = Some t'
           \<and> round_inv F tr1 f1 sc1 1 base pre (ws @ samples_of evs) 0 t'"
  using assms
proof (induction evs arbitrary: ws t)
  case Nil
  then show ?case by auto
next
  case (Cons e evs)
  show ?case
  proof (cases e)
    case (Sample w)
    have "round_inv F tr1 f1 sc1 1 base pre (ws @ [w]) 0 (ADC_vect w t)"
      using Cons.prems Sample by (intro round_sample) simp_all
    then have "\<exists>t'. run F evs (ADC_vect w t) = Some t'
        \<and> round_inv F tr1 f1 sc1 1 base pre ((ws @ [w]) @ samples_of evs) 0 t'"
      using Cons.prems Sample by (intro Cons.IH) simp_all
    then show ?thesis using Sample by simp
  next
    case Overflow
    then show ?thesis using Cons.prems by (simp add: rec_event_def)
  next
    case (Tick p)
    have k: "length pre + length ws < 512" using Cons.prems by simp
    obtain t1 where t1: "main_loop F p t = Some t1"
        "round_inv F tr1 f1 sc1 1 base pre ws 0 t1"
      using round_tick_any [OF Cons.prems(2) k] by blast
    have "\<exists>t'. run F evs t1 = Some t'
        \<and> round_inv F tr1 f1 sc1 1 base pre (ws @ samples_of evs) 0 t'"
      using Cons.prems Tick t1 by (intro Cons.IH) simp_all
    then show ?thesis using Tick t1 by simp
  qed
qed

lemma edge_tick:
  assumes full: "\<And>f bs. fst (snd (f_write F f bs)) = of_nat (length bs)"
    and "state s = DVR_RECORDING" and "stop s = 0" and "length (samples s) = 1024"
    and "base = 0 \<or> base = 512" and "0 < off" and "off < 512" and "pHead s = base + off"
    and "pTail s = (if newPage s = 0 then base else 512 - base)"
    and "finaliseHeader s \<noteq> 0"
    and "(pb AND (pb XOR pb_prev s)) AND push_bit PINF6 1 \<noteq> 0"
  shows "\<exists>s1. main_loop F pb (s :: 'f dvr) = Some s1
          \<and> pageCount s1 = 1
          \<and> round_inv F (io_trace s @ pending_write s) (replay F (pending_write s) (fs s))
               (sampleCount s + (if newPage s \<noteq> 0 then 512 else 0)) 1 base
               (take off (drop base (samples s))) [] 0 s1"
proof (cases "newPage s = 0")
  case True
  then show ?thesis
    using assms(2-)
    by (auto simp: main_loop_def Let_def split_beta round_inv_def round_trace_def pending_write_def
      DVR_STOPPED_def DVR_RECORDING_def DVR_PLAYING_def)
next
  case False
  then show ?thesis
    using assms(2-)
    by (auto simp: main_loop_def Let_def split_beta round_inv_def round_trace_def pending_write_def
      DVR_STOPPED_def DVR_RECORDING_def DVR_PLAYING_def buffer_readPage_def wave_write_def
      pPage0_def pPage1_def full)
qed

lemma memfs_full: "fst (snd (f_write memfs f bs)) = of_nat (length bs)"
  by (simp add: memfs_def)

section \<open>An early stop during recording\<close>

text \<open>
  C7: a stop-button edge in the middle of a page does not cut the page short.  The
  recording is in any mid-page state: \<open>off\<close> bytes (\<open>0 < off < 512\<close>) of the page at
  \<open>base\<close> are filled, and the other page may still await its write (\<open>newPage\<close>).  The
  iteration that sees the edge sets the page countdown to 1 and writes the pending page
  if there is one.  From then on, for every interleaving of samples and loop iterations
  with any button values (buttons released, pressed again):
  \<^item> as long as fewer samples have arrived than the page has room for, the state is
    \<open>DVR_RECORDING\<close> and neither the FatFs calls nor the file-system state have changed
    since the edge iteration: nothing of the current page has been written;
  \<^item> the sample that fills the page sets \<open>stop\<close> and switches the ADC off; the next loop
    iteration, whatever it reads, runs the completion path: it writes the whole page
    (the \<open>off\<close> bytes present at the edge, then the samples taken since) in one call,
    rewrites the two header sizes with the sample count, closes the file, and sets
    \<open>DVR_STOPPED\<close>.  These are the only FatFs calls after the edge iteration, and the card
    is in the state they lead to.  The one exception to reaching \<open>DVR_STOPPED\<close> is an
    iteration that itself sees a stop-button edge: it makes the same calls and then never
    leaves its wait loop.
  Writes are assumed to report the full count.
\<close>

theorem C7_early_stop_finishes_page:
  assumes full: "\<And>f bs. fst (snd (f_write (F :: 'f fatfs) f bs)) = of_nat (length bs)"
    and "state (s :: 'f dvr) = DVR_RECORDING" and "stop s = 0" and "length (samples s) = 1024"
    and "base = 0 \<or> base = 512" and "0 < off" and "off < 512" and "pHead s = base + off"
    and "pTail s = (if newPage s = 0 then base else 512 - base)"
    and "finaliseHeader s \<noteq> 0"
    and "(pb AND (pb XOR pb_prev s)) AND push_bit PINF6 1 \<noteq> 0"
    and "list_all rec_event evs1" and "length (samples_of evs1) < 512 - off"
    and "list_all rec_event evs2" and "length (samples_of evs2) + 1 = 512 - off"
  shows "map_option pageCount (main_loop F pb s) = Some 1
       \<and> map_option state (run F (Tick pb # evs1) s) = Some DVR_RECORDING
       \<and> map_option io_trace (run F (Tick pb # evs1) s) = Some (io_trace s @ pending_write s)
       \<and> map_option fs (run F (Tick pb # evs1) s) = Some (replay F (pending_write s) (fs s))
       \<and> (\<exists>t. run F (Tick pb # evs2 @ [Sample w]) s = Some t
              \<and> state t = DVR_RECORDING \<and> stop t = 1 \<and> ADCSRA t = 0
              \<and> io_trace t = io_trace s @ pending_write s
              \<and> fs t = replay F (pending_write s) (fs s)
              \<and> main_loop F p t
                  = (if (p AND (p XOR pb_prev t)) AND push_bit PINF6 1 \<noteq> 0 then None
                     else Some ((completion F p t)\<lparr>state := DVR_STOPPED\<rparr>))
              \<and> io_trace (completion F p t)
                  = io_trace s @ pending_write s
                    @ IO_write (take off (drop base (samples s)) @ samples_of evs2 @ [w])
                      # finalise_trace (sampleCount s + (if newPage s \<noteq> 0 then 512 else 0) + 512)
              \<and> fs (completion F p t)
                  = replay F
                      (pending_write s
                       @ IO_write (take off (drop base (samples s)) @ samples_of evs2 @ [w])
                         # finalise_trace (sampleCount s + (if newPage s \<noteq> 0 then 512 else 0) + 512))
                      (fs s))"
proof -
  let ?tr = "io_trace s @ pending_write s"
  let ?f1 = "replay F (pending_write s) (fs s)"
  let ?sc = "sampleCount s + (if newPage s \<noteq> 0 then 512 else 0)"
  let ?pre = "take off (drop base (samples s))"
  obtain s1 where s1: "main_loop F pb s = Some s1" "pageCount s1 = 1"
      "round_inv F ?tr ?f1 ?sc 1 base ?pre [] 0 s1"
    using edge_tick [OF assms(1-11)] by blast
  have pre: "length ?pre = off"
    using assms(4,5,7) by auto
  have b1: "length ?pre + length ([] :: 8 word list) + length (samples_of evs1) < 512"
    using assms(13) pre by simp
  obtain t1 where t1: "run F evs1 s1 = Some t1"
      "round_inv F ?tr ?f1 ?sc 1 base ?pre ([] @ samples_of evs1) 0 t1"
    using round_run_any [OF assms(12) s1(3) b1] by blast
  have r1: "run F (Tick pb # evs1) s = Some t1"
    using s1(1) t1(1) by simp
  have a: "state t1 = DVR_RECORDING" "io_trace t1 = ?tr" "fs t1 = ?f1"
    using t1(2) by (simp_all add: round_inv_def round_trace_def)
  have b2: "length ?pre + length ([] :: 8 word list) + length (samples_of evs2) < 512"
    using assms(15) pre by simp
  obtain t2 where t2: "run F evs2 s1 = Some t2"
      "round_inv F ?tr ?f1 ?sc 1 base ?pre ([] @ samples_of evs2) 0 t2"
    using round_run_any [OF assms(14) s1(3) b2] by blast
  let ?t = "ADC_vect w t2"
  have b3: "length ?pre + length ([] @ samples_of evs2) < 512"
    using b2 by simp
  have t3: "round_inv F ?tr ?f1 ?sc 1 base ?pre (([] @ samples_of evs2) @ [w]) 0 ?t"
    using t2(2) b3 by (rule round_sample)
  have k: "length ?pre + length (([] @ samples_of evs2) @ [w]) = 512"
    using assms(15,7) pre by simp
  have r2: "run F (Tick pb # evs2 @ [Sample w]) s = Some ?t"
    using s1(1) t2(1) by (simp add: run_append)
  have c: "state ?t = DVR_RECORDING" "stop ?t = 1" "ADCSRA ?t = 0" "newPage ?t = 0"
      "io_trace ?t = ?tr" "fs ?t = ?f1"
    using t3 k by (simp_all add: round_inv_def round_trace_def)
  have "main_loop F p ?t
          = map_option (\<lambda>u. u\<lparr>state := DVR_STOPPED\<rparr>)
              (release_loop (p AND (p XOR pb_prev ?t)) (completion F p ?t))"
    using c by (intro main_loop_completion) simp_all
  then have d: "main_loop F p ?t
          = (if (p AND (p XOR pb_prev ?t)) AND push_bit PINF6 1 \<noteq> 0 then None
             else Some ((completion F p ?t)\<lparr>state := DVR_STOPPED\<rparr>))"
    by (simp add: release_loop_hang release_loop_skip)
  note e = completion_fields [OF full t3 k, of p]
  have e1: "io_trace (completion F p ?t)
      = io_trace s @ pending_write s
        @ IO_write (?pre @ samples_of evs2 @ [w]) # finalise_trace (?sc + 512)"
    using e(1) by simp
  have e2: "fs (completion F p ?t)
      = replay F (pending_write s
                  @ IO_write (?pre @ samples_of evs2 @ [w]) # finalise_trace (?sc + 512)) (fs s)"
    using e(2) by (simp add: replay_append)
  have last: "\<exists>t. run F (Tick pb # evs2 @ [Sample w]) s = Some t
              \<and> state t = DVR_RECORDING \<and> stop t = 1 \<and> ADCSRA t = 0
              \<and> io_trace t = io_trace s @ pending_write s
              \<and> fs t = replay F (pending_write s) (fs s)
              \<and> main_loop F p t
                  = (if (p AND (p XOR pb_prev t)) AND push_bit PINF6 1 \<noteq> 0 then None
                     else Some ((completion F p t)\<lparr>state := DVR_STOPPED\<rparr>))
              \<and> io_trace (completion F p t)
                  = io_trace s @ pending_write s
                    @ IO_write (?pre @ samples_of evs2 @ [w]) # finalise_trace (?sc + 512)
              \<and> fs (completion F p t)
                  = replay F
                      (pending_write s
                       @ IO_write (?pre @ samples_of evs2 @ [w]) # finalise_trace (?sc + 512))
                      (fs s)"
    using r2 c d e1 e2 by blast
  have first: "map_option pageCount (main_loop F pb s) = Some 1"
    using s1 by simp
  show ?thesis
    using first r1 a last by simp
qed

theorem C7_early_stop_finishes_page_witness:
  "map_option state
     (run memfs (Tick 0x40 # [Sample 3, Tick 0, Sample 3])
        ((dvr_record memfs (power_on \<lparr>content = [], fptr = 0\<rparr>))
           \<lparr>state := DVR_RECORDING, pHead := 100\<rparr>))
   = Some DVR_RECORDING
   \<and> (\<exists>t. run memfs (Tick 0x40 # (Tick 0 # map Sample (replicate 411 3)) @ [Sample 9])
              ((dvr_record memfs (power_on \<lparr>content = [], fptr = 0\<rparr>))
                 \<lparr>state := DVR_RECORDING, pHead := 100\<rparr>) = Some t
          \<and> stop t = 1
          \<and> main_loop memfs 0 t = Some ((completion memfs 0 t)\<lparr>state := DVR_STOPPED\<rparr>))"
proof -
  let ?s = "(dvr_record memfs (power_on \<lparr>content = [], fptr = 0\<rparr>))
           \<lparr>state := DVR_RECORDING, pHead := 100\<rparr>"
  note defs = dvr_record_def wave_create_def write_wave_header_def adc_start_def
    buffer_reset_def memfs_def power_on_def Let_def
  have s: "state ?s = DVR_RECORDING" "stop ?s = 0" "length (samples ?s) = 1024"
    by (simp_all add: defs)
  have g: "(0::nat) = 0 \<or> (0::nat) = 512" "(0::nat) < 100" "(100::nat) < 512"
    by simp_all
  have h: "pHead ?s = 0 + 100" "pTail ?s = (if newPage ?s = 0 then 0 else 512 - 0)"
    "finaliseHeader ?s \<noteq> 0"
    by (simp_all add: defs pPage0_def)
  have e: "(0x40 AND (0x40 XOR pb_prev ?s)) AND push_bit PINF6 1 \<noteq> 0"
    by (simp add: defs PINF6_def)
  have e1: "list_all rec_event [Sample 3, Tick 0, Sample 3]"
    "list_all rec_event (Tick 0 # map Sample (replicate 411 3))"
    by (simp_all add: list_all_iff rec_event_def)
  have n1: "length (samples_of [Sample 3, Tick 0, Sample 3]) < 512 - 100"
    by simp
  have n2: "length (samples_of (Tick 0 # map Sample (replicate 411 3))) + 1 = 512 - 100"
    by (simp add: samples_of_replicate)
  note t = C7_early_stop_finishes_page [OF memfs_full s g h e e1(1) n1 e1(2) n2, of 9 0]
  show ?thesis
    using t by auto
qed

section \<open>A recording session\<close>














section \<open>A playback session\<close>

















end
